theory Spec2Isabelle
  imports Complex_Main "HOL-Library.Sublist"
begin

section \<open>NotificationHub: data\<close>

text \<open>
  The embedding follows \<^verbatim>\<open>electron/app/components/NotificationHub/NotificationHub.tsx\<close>.

  \<^verbatim>\<open>
  type Notification = { title: string; message: string; die: boolean; titleColor: string };
  \<close>
  is the type the source declares for a notification; the component reads \<open>title\<close>,
  \<open>message\<close> and \<open>titleColor\<close> of an item, and its \<open>key\<close>.

  The push function builds the queued item as \<^verbatim>\<open>{ key: id++, ...msg }\<close>. Its argument
  \<open>msg\<close> carries no type annotation and is spread after \<open>key\<close>, so a \<open>key\<close> property of
  the payload replaces the value taken from the counter. A payload is therefore the
  declared fields together with the \<open>key\<close> it may bring (\<open>own_key\<close>), a number like the
  keys the counter gives.
\<close>

record notification =
  title :: string
  message :: string
  die :: bool
  titleColor :: string

record payload = notification +
  own_key :: "nat option"

record item = notification +
  key :: nat

text \<open>
  The \<open>Content\<close> element a ref callback receives; the component reads nothing of it but
  \<open>offsetHeight\<close> (an integer number of pixels in the DOM).
\<close>

record element =
  offsetHeight :: int

text \<open>
  The \<open>cancel\<close> function the transition library passes to \<open>leave\<close> is opaque to the
  component, which only stores it and calls it; it is modelled as a tagged token and a
  call of it as an entry in the log \<open>calls\<close> of the hub.
\<close>

datatype cancel_fn = Cancel nat

text \<open>
  The state the component's code reads and writes: the module-level counter
  \<^verbatim>\<open>let id = 0\<close>, the \<open>items\<close> state, the two maps keyed by item (\<open>refMap\<close>,
  \<open>cancelMap\<close>; WeakMaps in the source: an entry can be looked up for as long as its key
  can be presented), and the log of calls of cancel functions.

  The counter is a JavaScript number, a double: it holds the integers from 0 to \<open>2 ^ 53\<close>
  exactly, and \<open>id++\<close> at \<open>2 ^ 53\<close> leaves it where it is, since \<open>2 ^ 53 + 1\<close> is no
  double and rounds back to \<open>2 ^ 53\<close>. Counting up from 0 it never holds another value.

  The maps take the item itself as key, the source the item object. Two objects are one
  key here only if they agree in every field, \<open>key\<close> included, which takes two payloads
  bringing the same key; what is stated of a map below is stated of the one item
  presented to it.
\<close>

record hub =
  id_ctr :: nat
  items :: "item list"
  refMap :: "item \<rightharpoonup> element"
  cancelMap :: "item \<rightharpoonup> cancel_fn"
  calls :: "cancel_fn list"

definition initial :: hub where
  "initial = \<lparr>id_ctr = 0, items = [], refMap = Map.empty, cancelMap = Map.empty, calls = []\<rparr>"

section \<open>The queue: push and onRest\<close>

text \<open>
  The object \<^verbatim>\<open>{ key: id++, ...msg }\<close> when \<open>id++\<close> yields \<open>k\<close>: the spread comes last,
  so the payload's own \<open>key\<close> wins over \<open>k\<close>.
\<close>

definition mk_item :: "nat \<Rightarrow> payload \<Rightarrow> item" where
  "mk_item k msg =
     \<lparr>title = title msg, message = message msg, die = die msg,
      titleColor = titleColor msg,
      key = (case own_key msg of None \<Rightarrow> k | Some k' \<Rightarrow> k')\<rparr>"

text \<open>The value of the counter after \<open>id++\<close>.\<close>

definition incr :: "nat \<Rightarrow> nat" where
  "incr n = (if n < 2 ^ 53 then n + 1 else n)"

text \<open>
  The updater \<^verbatim>\<open>(state) => [...state, { key: id++, ...msg }]\<close>, with the counter it
  reads and advances written as a second argument and result. \<open>id++\<close> is evaluated
  whether or not the payload's key replaces its value.
\<close>

definition updater :: "payload \<Rightarrow> nat \<times> item list \<Rightarrow> nat \<times> item list" where
  "updater msg cs = (incr (fst cs), snd cs @ [mk_item (fst cs) msg])"

text \<open>
  The function handed to the producer:
  \<^verbatim>\<open>(msg) => setItems((state) => [...state, { key: id++, ...msg }])\<close>.
  \<open>push\<close> is the call in which React runs the updater once.
\<close>

definition push :: "payload \<Rightarrow> hub \<Rightarrow> hub" where
  "push msg s =
     s\<lparr>items := snd (updater msg (id_ctr s, items s)),
       id_ctr := fst (updater msg (id_ctr s, items s))\<rparr>"

text \<open>
  React may run an updater twice on the same \<open>state\<close> and keep one of the two results
  (the check of updaters it makes in StrictMode); the updater of the push function is not
  pure, so both runs advance the counter. Which result is kept is React's choice:
  \<open>keep_first\<close> says that it is the first.
\<close>

definition push_twice :: "bool \<Rightarrow> payload \<Rightarrow> hub \<Rightarrow> hub" where
  "push_twice keep_first msg s =
     s\<lparr>items :=
         (if keep_first then snd (updater msg (id_ctr s, items s))
          else snd (updater msg (fst (updater msg (id_ctr s, items s)), items s))),
       id_ctr := fst (updater msg (fst (updater msg (id_ctr s, items s)), items s))\<rparr>"

text \<open>
  \<^verbatim>\<open>onRest: (item) => setItems((state) => state.filter((i) => i.key !== item.key))\<close>
\<close>

definition onRest :: "item \<Rightarrow> hub \<Rightarrow> hub" where
  "onRest it s = s\<lparr>items := filter (\<lambda>i. key i \<noteq> key it) (items s)\<rparr>"

section \<open>The transition callbacks\<close>

text \<open>
  An animated property of a message and the value it is driven to. An object literal
  such as \<^verbatim>\<open>{ opacity: 1, height: h }\<close> is the list of its properties.
\<close>

datatype anim_prop = Opacity int | Height int | Life string

type_synonym target = "anim_prop list"

text \<open>\<^verbatim>\<open>from: { opacity: 0, height: 0, life: "100%" }\<close>\<close>

definition from_props :: target where
  "from_props = [Opacity 0, Height 0, Life ''100%'']"

text \<open>
  \<^verbatim>\<open>
  enter: (item) => async (next) =>
    await next({ opacity: 1, height: refMap.get(item).offsetHeight })
  \<close>
  \<open>refMap.get(item)\<close> is \<open>undefined\<close> for an item without an entry, and reading
  \<open>offsetHeight\<close> of \<open>undefined\<close> throws a TypeError before \<open>next\<close> is called: the
  async function rejects. The result is the error, or the targets passed to \<open>next\<close>, in
  the order of the awaited calls.
\<close>

datatype error = TypeError

definition enter :: "item \<Rightarrow> hub \<Rightarrow> error + target list" where
  "enter it s =
     (case refMap s it of
        None \<Rightarrow> Inl TypeError
      | Some r \<Rightarrow> Inr [[Opacity 1, Height (offsetHeight r)]])"

text \<open>
  \<^verbatim>\<open>
  leave: (item) => async (next, cancel) => {
    cancelMap.set(item, cancel);
    await next({ life: "0%" });
    await next({ opacity: 0 });
    await next({ height: 0 });
  }
  \<close>
  The function stores the cancel function, then awaits three calls of \<open>next\<close>, each
  issued once the one before has resolved. The result is the hub after the store and the
  targets of the awaited calls in their order.
\<close>

definition leave :: "item \<Rightarrow> cancel_fn \<Rightarrow> hub \<Rightarrow> hub \<times> target list" where
  "leave it cancel s =
     (s\<lparr>cancelMap := (cancelMap s)(it \<mapsto> cancel)\<rparr>,
      [[Life ''0%''], [Opacity 0], [Height 0]])"

text \<open>
  The \<open>config\<close> prop, \<^verbatim>\<open>{ tension: 125, friction: 20, precision: 0.1 }\<close> by default, and
  the \<open>timeout\<close> prop, 3000 by default.
\<close>

record spring =
  tension :: rat
  friction :: rat
  precision :: rat

definition default_config :: spring where
  "default_config = \<lparr>tension = 125, friction = 20, precision = 1 / 10\<rparr>"

definition default_timeout :: int where
  "default_timeout = 3000"

text \<open>
  An animation configuration is the spring object or \<^verbatim>\<open>{ duration: timeout }\<close>; the
  \<open>config\<close> callback returns one configuration or an array of them.
  \<^verbatim>\<open>
  config: (_, state) =>
    state === "leave" ? [{ duration: timeout }, config, config] : config
  \<close>
\<close>

datatype anim_config = Spring spring | Duration int

datatype config_result = Single anim_config | Array "anim_config list"

datatype transition_state = Enter | Leave | Update

definition config_fn :: "spring \<Rightarrow> int \<Rightarrow> transition_state \<Rightarrow> config_result" where
  "config_fn config timeout state =
     (if state = Leave then Array [Duration timeout, Spring config, Spring config]
      else Single (Spring config))"

text \<open>
  How the transition library (react-spring, not part of the repository) gives a
  configuration to a call of \<open>next\<close>: an array is indexed by the number of the call
  within its async function (\<open>undefined\<close>, here \<open>None\<close>, past its end), a single
  configuration governs every call.
\<close>

fun config_at :: "config_result \<Rightarrow> nat \<Rightarrow> anim_config option" where
  "config_at (Single c) n = Some c"
| "config_at (Array cs) n = (if n < length cs then Some (cs ! n) else None)"

definition phases :: "config_result \<Rightarrow> target list \<Rightarrow> (target \<times> anim_config option) list" where
  "phases c ts = map (\<lambda>(n, t). (t, config_at c n)) (enumerate 0 ts)"

section \<open>The rendered handlers\<close>

text \<open>
  \<^verbatim>\<open>ref={(ref) => ref && refMap.set(item, ref)}\<close>: React calls it with the element, or
  with \<open>null\<close> when the element goes away.
\<close>

definition content_ref :: "item \<Rightarrow> element option \<Rightarrow> hub \<Rightarrow> hub" where
  "content_ref it r s =
     (case r of None \<Rightarrow> s | Some el \<Rightarrow> s\<lparr>refMap := (refMap s)(it \<mapsto> el)\<rparr>)"

text \<open>
  \<^verbatim>\<open>
  onClick={(e) => {
    e.stopPropagation();
    cancelMap.has(item) && cancelMap.get(item)();
  }}
  \<close>
  The click event is reduced to what the handler changes of it.
\<close>

record click_event =
  propagationStopped :: bool

definition onClick :: "click_event \<Rightarrow> item \<Rightarrow> hub \<Rightarrow> click_event \<times> hub" where
  "onClick e it s =
     (e\<lparr>propagationStopped := True\<rparr>,
      (case cancelMap s it of
         None \<Rightarrow> s
       | Some cancel \<Rightarrow> s\<lparr>calls := calls s @ [cancel]\<rparr>))"

section \<open>Runs of the hub\<close>

text \<open>
  Whatever reaches the component's code from outside: a producer's call of the push
  function, and the calls of the callbacks by React and by the transition library.
\<close>

datatype event =
    Push payload
  | PushTwice bool payload
  | Rest item
  | Ref item "element option"
  | StartLeave item cancel_fn
  | Click item

fun step :: "event \<Rightarrow> hub \<Rightarrow> hub" where
  "step (Push msg) s = push msg s"
| "step (PushTwice keep_first msg) s = push_twice keep_first msg s"
| "step (Rest it) s = onRest it s"
| "step (Ref it r) s = content_ref it r s"
| "step (StartLeave it c) s = fst (leave it c s)"
| "step (Click it) s = snd (onClick \<lparr>propagationStopped = False\<rparr> it s)"

fun run :: "event list \<Rightarrow> hub \<Rightarrow> hub" where
  "run [] s = s"
| "run (e # es) s = run es (step e s)"

text \<open>An event that brings no key of its own: a push of a payload without \<open>key\<close>, or no push.\<close>

fun keyless :: "event \<Rightarrow> bool" where
  "keyless (Push msg) = (own_key msg = None)"
| "keyless (PushTwice keep_first msg) = (own_key msg = None)"
| "keyless (Rest it) = True"
| "keyless (Ref it r) = True"
| "keyless (StartLeave it c) = True"
| "keyless (Click it) = True"

text \<open>The keys of the items queued at any point of a run, the start and the end included.\<close>

fun ever_queued :: "event list \<Rightarrow> hub \<Rightarrow> nat list" where
  "ever_queued [] s = map key (items s)"
| "ever_queued (e # es) s = map key (items s) @ ever_queued es (step e s)"

section \<open>Which items enter\<close>

text \<open>
  \<^verbatim>\<open>useTransition(items, (item) => item.key, { from, enter, leave, ... })\<close>: the
  component has the transition library tell the items apart by \<open>item.key\<close>. An item
  has no phase of its own in the source. The library (react-spring, not part of the
  repository) starts a transition from \<open>from\<close> and runs \<open>enter\<close> for the items of the
  list it is given whose key is not among the keys it holds; \<open>entering tracked state\<close>
  are those items, \<open>tracked\<close> being the keys it holds.
\<close>

definition entering :: "nat list \<Rightarrow> item list \<Rightarrow> item list" where
  "entering tracked state = filter (\<lambda>i. key i \<notin> set tracked) state"

section \<open>Sample payloads and hubs\<close>

definition msg_a :: payload where
  "msg_a = \<lparr>title = ''A'', message = ''first'', die = False, titleColor = ''red'',
            own_key = None\<rparr>"

definition msg_b :: payload where
  "msg_b = \<lparr>title = ''B'', message = ''second'', die = False, titleColor = ''blue'',
            own_key = None\<rparr>"

text \<open>A payload that brings its own key, \<^verbatim>\<open>{ title: "K", ..., key: 7 }\<close>.\<close>

definition msg_k :: payload where
  "msg_k = \<lparr>title = ''K'', message = ''keyed'', die = False, titleColor = ''green'',
            own_key = Some 7\<rparr>"

definition item_a :: item where
  "item_a = mk_item 0 msg_a"

definition item_b :: item where
  "item_b = mk_item 1 msg_b"

definition el_40 :: element where
  "el_40 = \<lparr>offsetHeight = 40\<rparr>"

definition ev0 :: click_event where
  "ev0 = \<lparr>propagationStopped = False\<rparr>"

text \<open>A hub whose counter has come to \<open>2 ^ 53\<close> and whose queue has been emptied.\<close>

definition worn_hub :: hub where
  "worn_hub = initial\<lparr>id_ctr := 2 ^ 53\<rparr>"

text \<open>A hub holding \<open>item_a\<close> only, pushed and not yet measured.\<close>

definition queued_hub :: hub where
  "queued_hub = run [Push msg_a] initial"

text \<open>\<open>item_a\<close> pushed, measured, and its leave function started with cancel function 7.\<close>

definition leaving_hub :: hub where
  "leaving_hub = run [Push msg_a, Ref item_a (Some el_40), StartLeave item_a (Cancel 7)] initial"

text \<open>The same hub after \<open>onRest\<close> has taken \<open>item_a\<close> out of the queue.\<close>

definition removed_hub :: hub where
  "removed_hub = onRest item_a leaving_hub"

lemmas sample_defs =
  msg_a_def msg_b_def item_a_def item_b_def el_40_def ev0_def queued_hub_def leaving_hub_def
  removed_hub_def initial_def mk_item_def incr_def updater_def push_def push_twice_def
  onRest_def content_ref_def leave_def onClick_def msg_k_def worn_hub_def entering_def

section \<open>Invariants of runs\<close>

lemma incr_ge: "n \<le> incr n"
  by (simp add: incr_def)

lemma incr_exact: "incr n < 2 ^ 53 \<Longrightarrow> incr n = n + 1"
  by (simp add: incr_def split: if_splits)

lemma incr_below: "n < 2 ^ 53 \<Longrightarrow> incr n = n + 1"
  by (simp add: incr_def)

lemma mk_item_key: "own_key msg = None \<Longrightarrow> key (mk_item k msg) = k"
  by (simp add: mk_item_def)

lemma step_id_mono: "id_ctr s \<le> id_ctr (step e s)"
proof (cases e)
  case (Push msg)
  then show ?thesis by (simp add: push_def updater_def incr_ge)
next
  case (PushTwice b msg)
  have "id_ctr s \<le> incr (id_ctr s)" by (rule incr_ge)
  also have "\<dots> \<le> incr (incr (id_ctr s))" by (rule incr_ge)
  finally show ?thesis using PushTwice by (simp add: push_twice_def updater_def)
qed (simp_all add: onRest_def content_ref_def leave_def onClick_def split: option.splits)

lemma run_id_mono: "id_ctr s \<le> id_ctr (run es s)"
proof (induction es arbitrary: s)
  case Nil
  show ?case by simp
next
  case (Cons e es)
  have "id_ctr s \<le> id_ctr (step e s)" by (rule step_id_mono)
  also have "\<dots> \<le> id_ctr (run es (step e s))" by (rule Cons.IH)
  finally show ?case by simp
qed

lemma step_items_old:
  assumes "keyless e" and "i \<in> set (items (step e s))" and "key i < id_ctr s"
  shows "i \<in> set (items s)"
proof (cases e)
  case (Push msg)
  with assms show ?thesis by (auto simp: push_def updater_def mk_item_key)
next
  case (PushTwice b msg)
  with assms incr_ge [of "id_ctr s"] show ?thesis
    by (auto simp: push_twice_def updater_def mk_item_key split: if_splits)
next
  case (Rest it)
  with assms show ?thesis by (simp add: onRest_def)
next
  case (Ref it r)
  with assms show ?thesis by (simp add: content_ref_def split: option.splits)
next
  case (StartLeave it c)
  with assms show ?thesis by (simp add: leave_def)
next
  case (Click it)
  with assms show ?thesis by (simp add: onClick_def split: option.splits)
qed

lemma run_items_old:
  "list_all keyless es \<Longrightarrow> i \<in> set (items (run es s)) \<Longrightarrow> key i < id_ctr s \<Longrightarrow>
   i \<in> set (items s)"
proof (induction es arbitrary: s)
  case Nil
  then show ?case by simp
next
  case (Cons e es)
  from Cons.prems(3) have "key i < id_ctr (step e s)"
    using step_id_mono [of s e] by simp
  with Cons.prems Cons.IH [of "step e s"] have "i \<in> set (items (step e s))" by simp
  with Cons.prems(1) show ?case using Cons.prems(3) by (auto intro: step_items_old)
qed

lemma step_keys_below:
  assumes "keyless e" and "id_ctr (step e s) < 2 ^ 53"
    and "\<forall>i\<in>set (items s). key i < id_ctr s"
  shows "\<forall>i\<in>set (items (step e s)). key i < id_ctr (step e s)"
proof (cases e)
  case (Push msg)
  with assms(2) have "incr (id_ctr s) < 2 ^ 53"
    by (simp add: push_def updater_def)
  then have "incr (id_ctr s) = id_ctr s + 1" by (rule incr_exact)
  with Push assms(1,3) show ?thesis
    by (auto simp: push_def updater_def mk_item_key less_Suc_eq)
next
  case (PushTwice b msg)
  with assms(2) have "incr (incr (id_ctr s)) < 2 ^ 53"
    by (simp add: push_twice_def updater_def)
  then have 2: "incr (incr (id_ctr s)) = incr (id_ctr s) + 1" by (rule incr_exact)
  with \<open>incr (incr (id_ctr s)) < 2 ^ 53\<close> have "incr (id_ctr s) < 2 ^ 53" by simp
  then have 1: "incr (id_ctr s) = id_ctr s + 1" by (rule incr_exact)
  from PushTwice assms(1,3) 1 2 show ?thesis
    by (auto simp: push_twice_def updater_def mk_item_key less_Suc_eq)
next
  case (Rest it)
  with assms show ?thesis by (simp add: onRest_def)
next
  case (Ref it r)
  with assms show ?thesis by (simp add: content_ref_def split: option.splits)
next
  case (StartLeave it c)
  with assms show ?thesis by (simp add: leave_def)
next
  case (Click it)
  with assms show ?thesis by (simp add: onClick_def split: option.splits)
qed

lemma step_keys_sorted:
  assumes "keyless e" and "sorted_wrt (<) (map key (items s))"
    and "\<forall>i\<in>set (items s). key i < id_ctr s"
  shows "sorted_wrt (<) (map key (items (step e s)))"
proof (cases e)
  case (Push msg)
  with assms show ?thesis
    by (auto simp: push_def updater_def mk_item_key sorted_wrt_append)
next
  case (PushTwice b msg)
  with assms incr_ge [of "id_ctr s"] show ?thesis
    by (fastforce simp: push_twice_def updater_def mk_item_key sorted_wrt_append)
next
  case (Rest it)
  with assms show ?thesis by (simp add: onRest_def sorted_wrt_map sorted_wrt_filter)
next
  case (Ref it r)
  with assms show ?thesis by (simp add: content_ref_def split: option.splits)
next
  case (StartLeave it c)
  with assms show ?thesis by (simp add: leave_def)
next
  case (Click it)
  with assms show ?thesis by (simp add: onClick_def split: option.splits)
qed

lemma run_keys:
  "list_all keyless es \<Longrightarrow> id_ctr (run es s) < 2 ^ 53 \<Longrightarrow>
   sorted_wrt (<) (map key (items s)) \<Longrightarrow> \<forall>i\<in>set (items s). key i < id_ctr s \<Longrightarrow>
   sorted_wrt (<) (map key (items (run es s))) \<and>
   (\<forall>i\<in>set (items (run es s)). key i < id_ctr (run es s))"
proof (induction es arbitrary: s)
  case Nil
  then show ?case by simp
next
  case (Cons e es)
  from Cons.prems(1) have e: "keyless e" and es: "list_all keyless es" by simp_all
  from Cons.prems(2) have fin: "id_ctr (run es (step e s)) < 2 ^ 53" by simp
  with run_id_mono [of "step e s" es] have now: "id_ctr (step e s) < 2 ^ 53" by simp
  have "sorted_wrt (<) (map key (items (step e s)))"
    using e Cons.prems(3,4) by (rule step_keys_sorted)
  moreover have "\<forall>i\<in>set (items (step e s)). key i < id_ctr (step e s)"
    using e now Cons.prems(4) by (rule step_keys_below)
  ultimately show ?case using Cons.IH [OF es fin] by simp
qed

lemma reachable_keys:
  assumes "list_all keyless es" and "id_ctr (run es initial) < 2 ^ 53"
  shows "sorted_wrt (<) (map key (items (run es initial)))"
    and "\<forall>i\<in>set (items (run es initial)). key i < id_ctr (run es initial)"
  using run_keys [OF assms] by (simp_all add: initial_def)

lemma ever_queued_below:
  "list_all keyless es \<Longrightarrow> id_ctr (run es s) < 2 ^ 53 \<Longrightarrow>
   \<forall>i\<in>set (items s). key i < id_ctr s \<Longrightarrow>
   \<forall>k\<in>set (ever_queued es s). k < id_ctr (run es s)"
proof (induction es arbitrary: s)
  case Nil
  then show ?case by simp
next
  case (Cons e es)
  from Cons.prems(1) have e: "keyless e" and es: "list_all keyless es" by simp_all
  from Cons.prems(2) have fin: "id_ctr (run es (step e s)) < 2 ^ 53" by simp
  with run_id_mono [of "step e s" es] have now: "id_ctr (step e s) < 2 ^ 53" by simp
  have below: "\<forall>i\<in>set (items (step e s)). key i < id_ctr (step e s)"
    using e now Cons.prems(3) by (rule step_keys_below)
  have later: "\<forall>k\<in>set (ever_queued es (step e s)). k < id_ctr (run es (step e s))"
    using es fin below by (rule Cons.IH)
  have "id_ctr s \<le> id_ctr (run es (step e s))"
    using step_id_mono [of s e] run_id_mono [of "step e s" es] by simp
  with Cons.prems(3) have "\<forall>i\<in>set (items s). key i < id_ctr (run es (step e s))"
    by fastforce
  with later show ?case by auto
qed

lemma items_ever_queued: "key ` set (items (run es s)) \<subseteq> set (ever_queued es s)"
  by (induction es arbitrary: s) auto

lemma entering_append_new:
  assumes "key ` set xs \<subseteq> set tracked" and "key x \<notin> set tracked"
  shows "entering tracked (xs @ [x]) = [x]"
proof -
  from assms(1) have "\<forall>i\<in>set xs. \<not> key i \<notin> set tracked" by auto
  then have "filter (\<lambda>i. key i \<notin> set tracked) xs = []" by (simp add: filter_empty_conv)
  with assms(2) show ?thesis by (simp add: entering_def)
qed

section \<open>Identities\<close>

text \<open>
  Against C1 as stated: a payload that brings its own key is queued under that key, not
  under the counter's value, so two pushes of \<open>msg_k\<close> leave two queued items with key 7
  while the counter stands at 1 and then 2. And at \<open>2 ^ 53\<close> the counter no longer
  advances: two pushes give the same key twice.
\<close>

theorem push_identities_counterexample:
  "own_key msg_k = Some 7
   \<and> map key (items (run [Push msg_k, Push msg_k] initial)) = [7, 7]
   \<and> \<not> distinct (map key (items (run [Push msg_k, Push msg_k] initial)))
   \<and> id_ctr (run [Push msg_k] initial) = 1
   \<and> id_ctr worn_hub = 2 ^ 53
   \<and> id_ctr (push msg_a worn_hub) = 2 ^ 53
   \<and> map key (items (run [Push msg_a, Push msg_a] worn_hub)) = [2 ^ 53, 2 ^ 53]
   \<and> \<not> distinct (map key (items (run [Push msg_a, Push msg_a] worn_hub)))"
  by (simp add: sample_defs)

text \<open>
  C1, amended. Take a run from the initial hub in which no pushed payload brings a key of
  its own and the counter stays below \<open>2 ^ 53\<close>, React running each updater once or
  twice. Then the keys of the queued items are pairwise distinct, strictly increasing
  along the queue and all below the counter. A push with the updater run once appends one
  item whose key is the current value of the counter and advances the counter by one; with
  the updater run twice it appends one item whose key is that value or the one after it,
  and the counter advances. The counter never decreases, and an item found in a later
  state with a key below the earlier counter was already queued in the earlier state: a
  key that has left the queue, or was passed over, never comes back.
\<close>

theorem push_identities_unique:
  assumes "list_all keyless evs" and "list_all keyless evs'" and "own_key msg = None"
    and "id_ctr (run evs' (run evs initial)) < 2 ^ 53"
  shows "distinct (map key (items (run evs initial)))
   \<and> sorted_wrt (<) (map key (items (run evs initial)))
   \<and> (\<forall>i \<in> set (items (run evs initial)). key i < id_ctr (run evs initial))
   \<and> items (push msg (run evs initial))
       = items (run evs initial) @ [mk_item (id_ctr (run evs initial)) msg]
   \<and> key (mk_item (id_ctr (run evs initial)) msg) = id_ctr (run evs initial)
   \<and> id_ctr (push msg (run evs initial)) = id_ctr (run evs initial) + 1
   \<and> id_ctr (run evs initial) \<le> id_ctr (run evs' (run evs initial))
   \<and> (\<forall>i \<in> set (items (run evs' (run evs initial))).
         key i < id_ctr (run evs initial) \<longrightarrow> i \<in> set (items (run evs initial)))
   \<and> items (push_twice keep_first msg (run evs initial))
       = items (run evs initial)
         @ [mk_item (if keep_first then id_ctr (run evs initial)
                     else id_ctr (run evs initial) + 1) msg]
   \<and> id_ctr (run evs initial) < id_ctr (push_twice keep_first msg (run evs initial))"
proof -
  have mono: "id_ctr (run evs initial) \<le> id_ctr (run evs' (run evs initial))"
    by (rule run_id_mono)
  with assms(4) have small: "id_ctr (run evs initial) < 2 ^ 53" by simp
  then have next1: "incr (id_ctr (run evs initial)) = id_ctr (run evs initial) + 1"
    by (rule incr_below)
  have sorted: "sorted_wrt (<) (map key (items (run evs initial)))"
    and below: "\<forall>i \<in> set (items (run evs initial)). key i < id_ctr (run evs initial)"
    using assms(1) small by (rule reachable_keys)+
  from sorted have dist: "distinct (map key (items (run evs initial)))"
    by (simp add: strict_sorted_iff)
  have old: "\<forall>i \<in> set (items (run evs' (run evs initial))).
         key i < id_ctr (run evs initial) \<longrightarrow> i \<in> set (items (run evs initial))"
    using run_items_old [OF assms(2)] by blast
  have app: "items (push msg (run evs initial))
       = items (run evs initial) @ [mk_item (id_ctr (run evs initial)) msg]"
    by (simp add: push_def updater_def)
  have k: "key (mk_item (id_ctr (run evs initial)) msg) = id_ctr (run evs initial)"
    using assms(3) by (rule mk_item_key)
  have adv: "id_ctr (push msg (run evs initial)) = id_ctr (run evs initial) + 1"
    using next1 by (simp add: push_def updater_def)
  have app2: "items (push_twice keep_first msg (run evs initial))
       = items (run evs initial)
         @ [mk_item (if keep_first then id_ctr (run evs initial)
                     else id_ctr (run evs initial) + 1) msg]"
    using next1 by (simp add: push_twice_def updater_def)
  have adv2: "id_ctr (run evs initial) < id_ctr (push_twice keep_first msg (run evs initial))"
    using next1 incr_ge [of "id_ctr (run evs initial) + 1"]
    by (simp add: push_twice_def updater_def)
  from dist sorted below app k adv mono old app2 adv2 show ?thesis by blast
qed

theorem push_identities_unique_witness:
  "list_all keyless [Push msg_a, PushTwice True msg_b, Rest item_a]
   \<and> list_all keyless [Push msg_a]
   \<and> own_key msg_a = None
   \<and> id_ctr (run [Push msg_a] (run [Push msg_a, PushTwice True msg_b, Rest item_a] initial)) < 2 ^ 53
   \<and> item_b \<in> set (items (run [Push msg_a, PushTwice True msg_b, Rest item_a] initial))
   \<and> key item_b < id_ctr (run [Push msg_a, PushTwice True msg_b, Rest item_a] initial)
   \<and> item_b \<in> set (items (run [Push msg_a]
         (run [Push msg_a, PushTwice True msg_b, Rest item_a] initial)))
   \<and> map key (items (run [Push msg_a]
         (run [Push msg_a, PushTwice True msg_b, Rest item_a] initial))) = [1, 3]
   \<and> id_ctr (run [Push msg_a, PushTwice True msg_b, Rest item_a] initial) = 3
   \<and> distinct (map key (items (run [Push msg_a, PushTwice True msg_b, Rest item_a] initial)))"
proof -
  have 1: "list_all keyless [Push msg_a, PushTwice True msg_b, Rest item_a]"
    by (simp add: sample_defs)
  have 2: "list_all keyless [Push msg_a]"
    by (simp add: sample_defs)
  have 3: "own_key msg_a = None"
    by (simp add: sample_defs)
  have 4: "id_ctr (run [Push msg_a] (run [Push msg_a, PushTwice True msg_b, Rest item_a] initial))
      < 2 ^ 53"
    by (simp add: sample_defs)
  from push_identities_unique [OF 1 2 3 4, of True] 1 2 3 4 show ?thesis
    by (simp add: sample_defs)
qed

section \<open>Removal from the queue\<close>

lemma filter_key_length:
  "distinct (map f xs) \<Longrightarrow> k \<in> f ` set xs \<Longrightarrow> length (filter (\<lambda>i. f i \<noteq> k) xs) + 1 = length xs"
proof (induction xs)
  case Nil
  then show ?case by simp
next
  case (Cons x xs)
  show ?case
  proof (cases "f x = k")
    case True
    with Cons.prems(1) have "k \<notin> f ` set xs" by simp
    then have "\<forall>i\<in>set xs. f i \<noteq> k" by blast
    then have "filter (\<lambda>i. f i \<noteq> k) xs = xs" by (simp add: filter_id_conv)
    with True show ?thesis by simp
  next
    case False
    with Cons show ?thesis by auto
  qed
qed

lemma count_list_filter:
  "P j \<Longrightarrow> count_list (filter P xs) j = count_list xs j"
  by (induction xs) auto

text \<open>
  C2. Removing with the same item twice leaves the hub exactly as removing once does: the
  second \<open>onRest\<close> is the identity on the result of the first, so the queue has the same
  length and every later run goes the same way. After the first call no queued item has
  that key; the call is the identity when no queued item has the key, and it takes out
  exactly one item when the keys are distinct and one of them is the key.
\<close>

theorem remove_idempotent:
  "onRest it (onRest it s) = onRest it s
   \<and> key it \<notin> key ` set (items (onRest it s))
   \<and> (key it \<notin> key ` set (items s) \<longrightarrow> onRest it s = s)
   \<and> (distinct (map key (items s)) \<and> key it \<in> key ` set (items s) \<longrightarrow>
        length (items (onRest it s)) + 1 = length (items s))
   \<and> length (items (onRest it (onRest it s))) = length (items (onRest it s))
   \<and> run evs (onRest it (onRest it s)) = run evs (onRest it s)"
proof -
  have idem: "onRest it (onRest it s) = onRest it s"
    by (simp add: onRest_def)
  have gone: "key it \<notin> key ` set (items (onRest it s))"
    by (auto simp: onRest_def)
  have absent: "key it \<notin> key ` set (items s) \<longrightarrow> onRest it s = s"
  proof
    assume "key it \<notin> key ` set (items s)"
    then have "\<forall>i\<in>set (items s). key i \<noteq> key it" by (metis imageI)
    then have "filter (\<lambda>i. key i \<noteq> key it) (items s) = items s"
      by (simp add: filter_id_conv)
    then show "onRest it s = s" by (simp add: onRest_def)
  qed
  have one: "distinct (map key (items s)) \<and> key it \<in> key ` set (items s) \<longrightarrow>
        length (items (onRest it s)) + 1 = length (items s)"
    using filter_key_length [of key "items s" "key it"] by (simp add: onRest_def)
  from idem gone absent one show ?thesis by simp
qed

theorem remove_idempotent_witness:
  "key item_a \<in> key ` set (items (run [Push msg_a, Push msg_b] initial))
   \<and> distinct (map key (items (run [Push msg_a, Push msg_b] initial)))
   \<and> items (onRest item_a (run [Push msg_a, Push msg_b] initial)) = [item_b]
   \<and> key item_a \<notin> key ` set (items (onRest item_a (run [Push msg_a, Push msg_b] initial)))
   \<and> onRest item_a (onRest item_a (run [Push msg_a, Push msg_b] initial))
       = onRest item_a (run [Push msg_a, Push msg_b] initial)
   \<and> length (items (onRest item_a (run [Push msg_a, Push msg_b] initial))) + 1
       = length (items (run [Push msg_a, Push msg_b] initial))"
  using remove_idempotent [of item_a "run [Push msg_a, Push msg_b] initial" "[]"]
    remove_idempotent [of item_a "onRest item_a (run [Push msg_a, Push msg_b] initial)" "[]"]
  by (simp add: sample_defs)

text \<open>
  C10. \<open>onRest\<close> keeps every queued item whose key differs from the removed one, as it
  is and as often as it occurs, and keeps their order: the new queue is a subsequence of
  the old one. The counter, both maps and the log of cancel calls are unchanged.
\<close>

theorem onRest_frame:
  "subseq (items (onRest it s)) (items s)
   \<and> (\<forall>j. key j \<noteq> key it \<longrightarrow> count_list (items (onRest it s)) j = count_list (items s) j)
   \<and> set (items (onRest it s)) = {j \<in> set (items s). key j \<noteq> key it}
   \<and> id_ctr (onRest it s) = id_ctr s
   \<and> refMap (onRest it s) = refMap s
   \<and> cancelMap (onRest it s) = cancelMap s
   \<and> calls (onRest it s) = calls s"
  by (auto simp: onRest_def count_list_filter)

theorem onRest_frame_witness:
  "key item_b \<noteq> key item_a
   \<and> count_list (items (run [Push msg_a, Push msg_b, Push msg_a] initial)) item_b = 1
   \<and> count_list (items (onRest item_a (run [Push msg_a, Push msg_b, Push msg_a] initial))) item_b = 1
   \<and> items (onRest item_a (run [Push msg_a, Push msg_b, Push msg_a] initial)) = [item_b, mk_item 2 msg_a]
   \<and> subseq [item_b, mk_item 2 msg_a] (items (run [Push msg_a, Push msg_b, Push msg_a] initial))"
  using onRest_frame [of item_a "run [Push msg_a, Push msg_b, Push msg_a] initial"]
  by (simp add: sample_defs)

section \<open>Growth of the queue\<close>

text \<open>
  Against C9 as stated: with \<open>msg_k\<close> queued and its key 7 held by the transition
  library, a second push of \<open>msg_k\<close> appends an item under the same key 7; no item of the
  new queue has a new key, so none is started with \<open>enter\<close>.
\<close>

theorem push_entering_counterexample:
  "items (run [Push msg_k] initial) = [mk_item 0 msg_k]
   \<and> map key (items (push msg_k (run [Push msg_k] initial))) = [7, 7]
   \<and> entering (map key (items (run [Push msg_k] initial)))
        (items (push msg_k (run [Push msg_k] initial))) = []
   \<and> \<not> last (items (push msg_k (run [Push msg_k] initial)))
        \<in> set (entering (map key (items (run [Push msg_k] initial)))
                 (items (push msg_k (run [Push msg_k] initial))))"
  by (simp add: sample_defs)

text \<open>
  C9, amended. A push makes the queue one longer, whatever the payload and whether React
  runs the updater once or twice: the items queued before stay as the first elements,
  unchanged and in their order, and the new item, carrying the payload's fields, is the
  last. The maps and the log are unchanged. In a run from the initial hub in which no
  payload brings a key of its own and the counter is below \<open>2 ^ 53\<close>, the new item is
  the one item of the new queue that enters, even if the library still holds every key
  that was ever queued.
\<close>

theorem push_appends:
  "length (items (push msg s)) = length (items s) + 1
   \<and> take (length (items s)) (items (push msg s)) = items s
   \<and> last (items (push msg s)) = mk_item (id_ctr s) msg
   \<and> notification.truncate (last (items (push msg s))) = notification.truncate msg
   \<and> refMap (push msg s) = refMap s
   \<and> cancelMap (push msg s) = cancelMap s
   \<and> calls (push msg s) = calls s
   \<and> length (items (push_twice keep_first msg s)) = length (items s) + 1
   \<and> take (length (items s)) (items (push_twice keep_first msg s)) = items s
   \<and> notification.truncate (last (items (push_twice keep_first msg s)))
       = notification.truncate msg
   \<and> refMap (push_twice keep_first msg s) = refMap s
   \<and> cancelMap (push_twice keep_first msg s) = cancelMap s
   \<and> calls (push_twice keep_first msg s) = calls s
   \<and> (list_all keyless evs \<and> own_key msg = None \<and> id_ctr (run evs initial) < 2 ^ 53 \<longrightarrow>
        entering (ever_queued evs initial) (items (push msg (run evs initial)))
          = [last (items (push msg (run evs initial)))]
        \<and> entering (ever_queued evs initial)
            (items (push_twice keep_first msg (run evs initial)))
          = [last (items (push_twice keep_first msg (run evs initial)))])"
proof -
  have frame: "length (items (push msg s)) = length (items s) + 1
   \<and> take (length (items s)) (items (push msg s)) = items s
   \<and> last (items (push msg s)) = mk_item (id_ctr s) msg
   \<and> notification.truncate (last (items (push msg s))) = notification.truncate msg
   \<and> refMap (push msg s) = refMap s
   \<and> cancelMap (push msg s) = cancelMap s
   \<and> calls (push msg s) = calls s"
    by (simp add: push_def updater_def mk_item_def notification.truncate_def)
  have frame2: "length (items (push_twice keep_first msg s)) = length (items s) + 1
   \<and> take (length (items s)) (items (push_twice keep_first msg s)) = items s
   \<and> notification.truncate (last (items (push_twice keep_first msg s)))
       = notification.truncate msg
   \<and> refMap (push_twice keep_first msg s) = refMap s
   \<and> cancelMap (push_twice keep_first msg s) = cancelMap s
   \<and> calls (push_twice keep_first msg s) = calls s"
    by (simp add: push_twice_def updater_def mk_item_def notification.truncate_def)
  have enters: "entering (ever_queued evs initial) (items (push msg (run evs initial)))
          = [last (items (push msg (run evs initial)))]
        \<and> entering (ever_queued evs initial)
            (items (push_twice keep_first msg (run evs initial)))
          = [last (items (push_twice keep_first msg (run evs initial)))]"
    if h: "list_all keyless evs" "own_key msg = None" "id_ctr (run evs initial) < 2 ^ 53"
  proof -
    have "\<forall>k\<in>set (ever_queued evs initial). k < id_ctr (run evs initial)"
      using h(1,3) by (rule ever_queued_below) (simp add: initial_def)
    then have fresh: "id_ctr (run evs initial) \<notin> set (ever_queued evs initial)"
      and fresh': "id_ctr (run evs initial) + 1 \<notin> set (ever_queued evs initial)"
      by fastforce+
    have sub: "key ` set (items (run evs initial)) \<subseteq> set (ever_queued evs initial)"
      by (rule items_ever_queued)
    have k: "key (mk_item n msg) = n" for n
      using h(2) by (rule mk_item_key)
    from h(3) have next1: "incr (id_ctr (run evs initial)) = id_ctr (run evs initial) + 1"
      by (rule incr_below)
    have "entering (ever_queued evs initial)
        (items (run evs initial) @ [mk_item (id_ctr (run evs initial)) msg])
        = [mk_item (id_ctr (run evs initial)) msg]"
      using sub fresh by (intro entering_append_new) (simp_all add: k)
    moreover have "entering (ever_queued evs initial)
        (items (run evs initial) @ [mk_item (id_ctr (run evs initial) + 1) msg])
        = [mk_item (id_ctr (run evs initial) + 1) msg]"
      using sub fresh' by (intro entering_append_new) (simp_all add: k)
    ultimately show ?thesis
      using next1 by (simp add: push_def push_twice_def updater_def)
  qed
  from frame frame2 enters show ?thesis by blast
qed

theorem push_appends_witness:
  "list_all keyless [Push msg_a, Rest item_a]
   \<and> own_key msg_b = None
   \<and> id_ctr (run [Push msg_a, Rest item_a] initial) < 2 ^ 53
   \<and> ever_queued [Push msg_a, Rest item_a] initial = [0]
   \<and> items (push msg_b (run [Push msg_a, Rest item_a] initial)) = [item_b]
   \<and> entering (ever_queued [Push msg_a, Rest item_a] initial)
        (items (push msg_b (run [Push msg_a, Rest item_a] initial))) = [item_b]"
proof -
  have h: "list_all keyless [Push msg_a, Rest item_a] \<and> own_key msg_b = None
      \<and> id_ctr (run [Push msg_a, Rest item_a] initial) < 2 ^ 53"
    by (simp add: sample_defs)
  from push_appends [of msg_b "run [Push msg_a, Rest item_a] initial" True
      "[Push msg_a, Rest item_a]"] h
  show ?thesis by (simp add: sample_defs)
qed

section \<open>The leave sequence\<close>

text \<open>
  C3. \<open>leave\<close> awaits three calls of \<open>next\<close> in this order: life to \<open>0%\<close> under
  \<open>{ duration: timeout }\<close>, opacity to 0 under the spring configuration, height to 0
  under the spring configuration. The spring configuration is the one every call of
  \<open>enter\<close> runs under. Life starts at \<open>100%\<close> in \<open>from\<close> and no target of \<open>enter\<close>
  touches it.
\<close>

theorem leave_phases:
  "phases (config_fn config timeout Leave) (snd (leave it cancel s))
     = [([Life ''0%''], Some (Duration timeout)),
        ([Opacity 0], Some (Spring config)),
        ([Height 0], Some (Spring config))]
   \<and> config_at (config_fn config timeout Enter) n = Some (Spring config)
   \<and> filter (\<lambda>p. case p of Life l \<Rightarrow> True | _ \<Rightarrow> False) from_props = [Life ''100%'']
   \<and> (enter it s = Inr ts \<longrightarrow>
        filter (\<lambda>p. case p of Life l \<Rightarrow> True | _ \<Rightarrow> False) (concat ts) = [])"
  by (auto simp: phases_def config_fn_def leave_def from_props_def enter_def split: option.splits)

theorem leave_phases_witness:
  "enter item_a leaving_hub = Inr [[Opacity 1, Height 40]]
   \<and> filter (\<lambda>p. case p of Life l \<Rightarrow> True | _ \<Rightarrow> False) (concat [[Opacity 1, Height 40]]) = []
   \<and> phases (config_fn default_config default_timeout Leave)
        (snd (leave item_a (Cancel 7) leaving_hub))
     = [([Life ''0%''], Some (Duration 3000)),
        ([Opacity 0], Some (Spring default_config)),
        ([Height 0], Some (Spring default_config))]"
  using leave_phases [of default_config default_timeout item_a "Cancel 7" leaving_hub 0
      "[[Opacity 1, Height 40]]"]
  by (simp add: sample_defs enter_def default_timeout_def)

section \<open>Clicks and the cancel function\<close>

text \<open>
  Against C4 as stated: in the hub where \<open>item_a\<close> is leaving, a click leaves the cancel
  function in \<open>cancelMap\<close>, and a second click calls it a second time.
\<close>

theorem click_clears_handle_counterexample:
  "cancelMap leaving_hub item_a = Some (Cancel 7)
   \<and> \<not> cancelMap (snd (onClick ev0 item_a leaving_hub)) item_a = None
   \<and> calls (snd (onClick ev0 item_a (snd (onClick ev0 item_a leaving_hub))))
       = [Cancel 7, Cancel 7]
   \<and> \<not> length (calls (snd (onClick ev0 item_a (snd (onClick ev0 item_a leaving_hub))))) \<le> 1"
  by (simp add: sample_defs)

text \<open>
  C4, amended. A click on an item whose cancel function is in \<open>cancelMap\<close> calls that
  function once and changes nothing else: the map still holds the function and the queue
  is the same. A second click calls the same function again.
\<close>

theorem click_calls_handle:
  "cancelMap s it = Some c \<Longrightarrow>
     snd (onClick e it s) = s\<lparr>calls := calls s @ [c]\<rparr>
   \<and> cancelMap (snd (onClick e it s)) = cancelMap s
   \<and> items (snd (onClick e it s)) = items s
   \<and> snd (onClick e' it (snd (onClick e it s))) = s\<lparr>calls := calls s @ [c, c]\<rparr>"
  by (simp add: onClick_def)

theorem click_calls_handle_witness:
  "cancelMap leaving_hub item_a = Some (Cancel 7)
   \<and> calls (snd (onClick ev0 item_a leaving_hub)) = [Cancel 7]
   \<and> cancelMap (snd (onClick ev0 item_a leaving_hub)) item_a = Some (Cancel 7)
   \<and> items (snd (onClick ev0 item_a leaving_hub)) = [item_a]"
proof -
  have h: "cancelMap leaving_hub item_a = Some (Cancel 7)"
    by (simp add: sample_defs)
  from click_calls_handle [OF h, of ev0 ev0] h show ?thesis
    by (simp add: sample_defs)
qed

lemma step_cancelMap_other:
  "\<forall>c. e \<noteq> StartLeave it c \<Longrightarrow> cancelMap (step e s) it = cancelMap s it"
  by (cases e) (auto simp: push_def push_twice_def onRest_def content_ref_def leave_def onClick_def
      split: option.splits)

lemma run_cancelMap_other:
  "\<forall>c. StartLeave it c \<notin> set es \<Longrightarrow> cancelMap (run es s) it = cancelMap s it"
proof (induction es arbitrary: s)
  case Nil
  show ?case by simp
next
  case (Cons e es)
  from Cons.prems have "\<forall>c. e \<noteq> StartLeave it c" and "\<forall>c. StartLeave it c \<notin> set es"
    by auto
  then show ?case using Cons.IH [of "step e s"] by (simp add: step_cancelMap_other)
qed

text \<open>
  C5. A click on an item with no cancel function in \<open>cancelMap\<close> returns the hub as it
  was: queue, counter, maps and log. The handler has no failing branch. An item whose
  \<open>leave\<close> function has not been started in a run from the initial hub is such an item.
\<close>

theorem click_without_handle_noop:
  "(cancelMap s it = None \<longrightarrow> snd (onClick e it s) = s)
   \<and> ((\<forall>c. StartLeave it c \<notin> set evs) \<longrightarrow>
        snd (onClick e it (run evs initial)) = run evs initial)"
proof -
  have "cancelMap (run evs initial) it = None" if "\<forall>c. StartLeave it c \<notin> set evs"
    using run_cancelMap_other [OF that, of initial] by (simp add: initial_def)
  then show ?thesis by (auto simp: onClick_def)
qed

theorem click_without_handle_noop_witness:
  "cancelMap queued_hub item_a = None
   \<and> snd (onClick ev0 item_a queued_hub) = queued_hub
   \<and> (\<forall>c. StartLeave item_a c \<notin> set [Push msg_a, Ref item_a (Some el_40)])
   \<and> snd (onClick ev0 item_a (run [Push msg_a, Ref item_a (Some el_40)] initial))
       = run [Push msg_a, Ref item_a (Some el_40)] initial"
proof -
  have h: "cancelMap queued_hub item_a = None"
    by (simp add: sample_defs)
  have g: "\<forall>c. StartLeave item_a c \<notin> set [Push msg_a, Ref item_a (Some el_40)]"
    by simp
  from click_without_handle_noop [of queued_hub item_a ev0 "[Push msg_a, Ref item_a (Some el_40)]"]
    h g show ?thesis by blast
qed

section \<open>The maps after a removal\<close>

text \<open>
  Against C6 as stated: after \<open>onRest\<close> has taken \<open>item_a\<close> out of the queue, both maps
  still answer for it.
\<close>

theorem removed_cache_counterexample:
  "item_a \<notin> set (items removed_hub)
   \<and> refMap removed_hub item_a = Some el_40
   \<and> cancelMap removed_hub item_a = Some (Cancel 7)
   \<and> \<not> (refMap removed_hub item_a = None \<and> cancelMap removed_hub item_a = None)"
  by (simp add: sample_defs)

lemma step_refMap_dom: "dom (refMap s) \<subseteq> dom (refMap (step e s))"
  by (cases e) (auto simp: push_def push_twice_def onRest_def content_ref_def leave_def onClick_def
      split: option.splits)

lemma step_cancelMap_dom: "dom (cancelMap s) \<subseteq> dom (cancelMap (step e s))"
  by (cases e) (auto simp: push_def push_twice_def onRest_def content_ref_def leave_def onClick_def
      split: option.splits)

lemma run_dom:
  "dom (refMap s) \<subseteq> dom (refMap (run es s)) \<and> dom (cancelMap s) \<subseteq> dom (cancelMap (run es s))"
proof (induction es arbitrary: s)
  case Nil
  show ?case by simp
next
  case (Cons e es)
  have "dom (refMap s) \<subseteq> dom (refMap (run es (step e s)))"
    using Cons.IH [of "step e s"] step_refMap_dom [of s e] by (blast intro: subset_trans)
  moreover have "dom (cancelMap s) \<subseteq> dom (cancelMap (run es (step e s)))"
    using Cons.IH [of "step e s"] step_cancelMap_dom [of s e] by (blast intro: subset_trans)
  ultimately show ?case by simp
qed

text \<open>
  C6, amended. \<open>onRest\<close> leaves \<open>refMap\<close> and \<open>cancelMap\<close> as they are, and no call
  that reaches the component ever takes a key out of either map: their domains only grow
  along a run. (The source holds the keys weakly; an entry goes when its item can no
  longer be presented.)
\<close>

theorem onRest_keeps_caches:
  "refMap (onRest it s) = refMap s
   \<and> cancelMap (onRest it s) = cancelMap s
   \<and> dom (refMap s) \<subseteq> dom (refMap (run evs s))
   \<and> dom (cancelMap s) \<subseteq> dom (cancelMap (run evs s))"
  using run_dom [of s evs] by (simp add: onRest_def)

section \<open>The enter target\<close>

text \<open>
  Against C8 as stated: for an item that is queued and has no entry in \<open>refMap\<close>,
  \<open>enter\<close> fails with a TypeError.
\<close>

theorem enter_unmeasured_counterexample:
  "item_a \<in> set (items queued_hub)
   \<and> refMap queued_hub item_a = None
   \<and> enter item_a queued_hub = Inl TypeError"
  by (simp add: sample_defs enter_def)

text \<open>
  C8, amended. A transition starts from opacity 0, height 0 and life \<open>100%\<close>. For an
  item with an element in \<open>refMap\<close>, \<open>enter\<close> awaits one call of \<open>next\<close>, to opacity 1
  and the \<open>offsetHeight\<close> of that element; so it does right after the ref callback has
  stored an element.
\<close>

theorem enter_measured:
  "from_props = [Opacity 0, Height 0, Life ''100%'']
   \<and> (refMap s it = Some r \<longrightarrow> enter it s = Inr [[Opacity 1, Height (offsetHeight r)]])
   \<and> enter it (content_ref it (Some el) s) = Inr [[Opacity 1, Height (offsetHeight el)]]"
  by (simp add: from_props_def enter_def content_ref_def)

theorem enter_measured_witness:
  "refMap leaving_hub item_a = Some el_40
   \<and> enter item_a leaving_hub = Inr [[Opacity 1, Height 40]]"
proof -
  have h: "refMap leaving_hub item_a = Some el_40"
    by (simp add: sample_defs)
  from enter_measured [of leaving_hub item_a el_40 el_40] h show ?thesis
    by (simp add: el_40_def)
qed

end
